theory Spec2Isabelle
  imports Complex_Main "HOL-Library.Multiset"
begin

section \<open>Python strings\<close>

text \<open>
  A Python \<open>str\<close> is modelled as a \<open>string\<close>; a character stands for a code point
  below 256. \<open>str.strip()\<close> without argument removes the leading and trailing
  characters for which \<open>str.isspace\<close> holds; below 256 these are the code points
  9 to 13, 28 to 32, 133 and 160.
\<close>

definition isspace :: "char \<Rightarrow> bool" where
  "isspace c = (of_char c \<in> {9, 10, 11, 12, 13, 28, 29, 30, 31, 32, 133, 160 :: nat})"

definition strip :: "string \<Rightarrow> string" where
  "strip s = rev (dropWhile isspace (rev (dropWhile isspace s)))"

text \<open>\<open>sep in s\<close> for a non-empty \<open>sep\<close>.\<close>

fun contains :: "string \<Rightarrow> string \<Rightarrow> bool" where
  "contains sep [] = (sep = [])"
| "contains sep (c # cs) = (take (length sep) (c # cs) = sep \<or> contains sep cs)"

text \<open>
  \<open>s.split(sep)\<close> for a non-empty \<open>sep\<close>: the pieces between the leftmost
  non-overlapping occurrences of \<open>sep\<close>. \<open>cur\<close> is the piece being read.
\<close>

fun split_from :: "string \<Rightarrow> string \<Rightarrow> string \<Rightarrow> string list" where
  "split_from sep cur [] = [cur]"
| "split_from sep cur (c # cs) =
     (if take (length sep) (c # cs) = sep
      then cur # split_from sep [] (drop (length sep - 1) cs)
      else split_from sep (cur @ [c]) cs)"

definition split :: "string \<Rightarrow> string \<Rightarrow> string list" where
  "split s sep = split_from sep [] s"

section \<open>The anomaly viewer: \<open>load_anomalies\<close>\<close>

text \<open>
  \<open>json.loads\<close> belongs to the standard library and is a parameter \<open>loads\<close>. On a
  string it returns the parsed value, or raises \<open>json.JSONDecodeError\<close>, or raises an
  exception of another class: \<open>RecursionError\<close> on a deeply nested document,
  \<open>ValueError\<close> on an integer literal of more than 4300 digits. The \<open>except\<close> clause
  of the loop names \<open>json.JSONDecodeError\<close> only. The file is given as the list of its
  lines. The loop keeps the list \<open>anomalies\<close> and, as the lines written to standard
  error, the pairs of line number and the first 80 characters of the trimmed line.
\<close>

datatype loads_error = RecursionError | ValueError

datatype 'j loads_result = Parsed 'j | JSONDecodeError | Raised loads_error

fun load_lines ::
  "(string \<Rightarrow> 'j loads_result) \<Rightarrow> nat \<Rightarrow> string list \<Rightarrow> 'j list \<Rightarrow> (nat \<times> string) list
    \<Rightarrow> loads_error + 'j list \<times> (nat \<times> string) list" where
  "load_lines loads lineno [] anomalies warned = Inr (anomalies, warned)"
| "load_lines loads lineno (line0 # rest) anomalies warned =
     (let line = strip line0 in
      if line = [] then load_lines loads (lineno + 1) rest anomalies warned
      else (case loads line of
              Parsed v \<Rightarrow> load_lines loads (lineno + 1) rest (anomalies @ [v]) warned
            | JSONDecodeError \<Rightarrow>
                load_lines loads (lineno + 1) rest anomalies
                  (warned @ [(lineno, take 80 line)])
            | Raised e \<Rightarrow> Inl e))"

definition load_anomalies ::
  "(string \<Rightarrow> 'j loads_result) \<Rightarrow> string list
    \<Rightarrow> loads_error + 'j list \<times> (nat \<times> string) list" where
  "load_anomalies loads lines = load_lines loads 1 lines [] []"

text \<open>
  What the loop is expected to collect, written without the loop: the values of the
  lines that parse, the warnings for the lines that are not JSON, and the exceptions
  of another class, each in file order.
\<close>

definition parsed_lines :: "(string \<Rightarrow> 'j loads_result) \<Rightarrow> string list \<Rightarrow> 'j list" where
  "parsed_lines loads lines =
     List.map_filter (\<lambda>l. case loads l of Parsed v \<Rightarrow> Some v | _ \<Rightarrow> None)
       (filter (\<lambda>l. l \<noteq> []) (map strip lines))"

definition bad_lines ::
  "(string \<Rightarrow> 'j loads_result) \<Rightarrow> nat \<Rightarrow> string list \<Rightarrow> (nat \<times> string) list" where
  "bad_lines loads start lines =
     map (\<lambda>(n, l). (n, take 80 (strip l)))
       (filter (\<lambda>(n, l). strip l \<noteq> [] \<and> loads (strip l) = JSONDecodeError)
          (zip [start ..< start + length lines] lines))"

definition raised_lines :: "(string \<Rightarrow> 'j loads_result) \<Rightarrow> string list \<Rightarrow> loads_error list" where
  "raised_lines loads lines =
     List.map_filter (\<lambda>l. case loads l of Raised e \<Rightarrow> Some e | _ \<Rightarrow> None)
       (filter (\<lambda>l. l \<noteq> []) (map strip lines))"

text \<open>
  A stand-in for \<open>json.loads\<close> on lines that hold an unsigned integer literal: the
  value for at most 4300 digits, \<open>ValueError\<close> for more (the interpreter's limit on
  the conversion of integer strings); any other line is taken as not JSON.
\<close>

definition integer_loads :: "string \<Rightarrow> nat loads_result" where
  "integer_loads s =
     (if s \<noteq> [] \<and> list_all (\<lambda>c. c \<in> set ''0123456789'') s \<and>
         (hd s \<noteq> CHR ''0'' \<or> length s = 1)
      then (if 4300 < length s then Raised ValueError
            else Parsed (foldl (\<lambda>n c. 10 * n + (of_char c - 48)) 0 s))
      else JSONDecodeError)"

section \<open>The fitness evaluation\<close>

text \<open>
  Everything outside the script is a parameter, and the state of the world outside
  (the file system, the processes, the language model) is a value of an arbitrary
  type \<open>'w\<close> that every call takes and returns, so that nothing is assumed to be
  repeatable:
  \<^item> \<open>write_text w code\<close> is \<open>test_file.write_text(code)\<close>: the world
    with the file written, or \<open>None\<close> when the call raises (the directory is gone,
    the disk is full, the text cannot be encoded);
  \<^item> \<open>run_candidate w input_val\<close> is the call of \<open>subprocess.run\<close> on the
    interpreter, \<open>candidate.py\<close> and \<open>str(input_val)\<close> with \<open>timeout=1\<close>. It
    returns the exit status and the captured standard output, or raises
    \<open>TimeoutExpired\<close>, or raises another exception. A candidate that dies of an
    uncaught fault is a completed process with a non-zero exit status;
  \<^item> \<open>claude w code fitness\<close> is the call of \<open>subprocess.run\<close> on \<open>claude -p\<close>
    with the prompt built from \<open>code\<close> and \<open>fitness\<close>: its standard output, or
    \<open>None\<close> when the call raises (no such program, for instance). A call that
    never comes back is not modelled.
\<close>

datatype error = ZeroDivisionError | IndexError | OSError

datatype outcome = Completed int string | TimeoutExpired | RunRaised

record 'w env =
  write_text :: "'w \<Rightarrow> string \<Rightarrow> 'w option"
  run_candidate :: "'w \<Rightarrow> int \<Rightarrow> outcome \<times> 'w"
  claude :: "'w \<Rightarrow> string \<Rightarrow> rat \<Rightarrow> (string \<times> 'w) option"

definition FITNESS_TESTS :: "(int \<times> string) list" where
  "FITNESS_TESTS =
     [(1, ''1''), (3, ''Fizz''), (5, ''Buzz''), (15, ''FizzBuzz''),
      (7, ''7''), (9, ''Fizz''), (10, ''Buzz''), (30, ''FizzBuzz'')]"

text \<open>The loop over the test vectors; \<open>failures\<close> is its counter.\<close>

fun run_tests ::
  "'w env \<Rightarrow> 'w \<Rightarrow> nat \<Rightarrow> (int \<times> string) list \<Rightarrow> nat \<times> 'w" where
  "run_tests env w failures [] = (failures, w)"
| "run_tests env w failures ((input_val, expected) # rest) =
     (case run_candidate env w input_val of
        (Completed returncode stdout, w') \<Rightarrow>
          (let actual = strip stdout in
           if actual \<noteq> expected then run_tests env w' (failures + 1) rest
           else run_tests env w' failures rest)
      | (TimeoutExpired, w') \<Rightarrow> run_tests env w' (failures + 1) rest
      | (RunRaised, w') \<Rightarrow> run_tests env w' (failures + 1) rest)"

text \<open>
  \<open>evaluate_fitness\<close> with the test vectors as a parameter (the script reads the
  global \<open>FITNESS_TESTS\<close>). The quotient of two Python integers raises
  \<open>ZeroDivisionError\<close> when the divisor is zero. The file is written before the
  \<open>try\<close>, so an exception of \<open>write_text\<close> leaves the function.
\<close>

definition evaluate_fitness_on ::
  "'w env \<Rightarrow> (int \<times> string) list \<Rightarrow> 'w \<Rightarrow> string \<Rightarrow> error + rat \<times> 'w" where
  "evaluate_fitness_on env tests w code =
     (case write_text env w code of
        None \<Rightarrow> Inl OSError
      | Some w1 \<Rightarrow>
          (let (failures, w2) = run_tests env w1 0 tests
           in if length tests = 0 then Inl ZeroDivisionError
              else Inr (of_nat failures / of_nat (length tests), w2)))"

definition evaluate_fitness :: "'w env \<Rightarrow> 'w \<Rightarrow> string \<Rightarrow> error + rat \<times> 'w" where
  "evaluate_fitness env w code = evaluate_fitness_on env FITNESS_TESTS w code"

section \<open>The mutation\<close>

text \<open>
  The part of \<open>llm_mutate\<close> after the call: the text between the code fences.
  Index 1 is read only when the separator occurs, and is then in range
  (\<open>split_index_in_range\<close> below).
\<close>

definition extract_code :: "string \<Rightarrow> string" where
  "extract_code stdout =
     (let output =
        (if contains ''```python'' stdout
         then split (split stdout ''```python'' ! 1) ''```'' ! 0
         else if contains ''```'' stdout
         then split (split stdout ''```'' ! 1) ''```'' ! 0
         else stdout)
      in strip output)"

definition llm_mutate ::
  "'w env \<Rightarrow> 'w \<Rightarrow> string \<Rightarrow> rat \<Rightarrow> error + string \<times> 'w" where
  "llm_mutate env w code fitness =
     (case claude env w code fitness of
        None \<Rightarrow> Inl OSError
      | Some (stdout, w') \<Rightarrow> Inr (extract_code stdout, w'))"

section \<open>The generations\<close>

text \<open>The list comprehension that scores the population, in order.\<close>

fun score_all ::
  "'w env \<Rightarrow> (int \<times> string) list \<Rightarrow> 'w \<Rightarrow> string list
    \<Rightarrow> error + (string \<times> rat) list \<times> 'w" where
  "score_all env tests w [] = Inr ([], w)"
| "score_all env tests w (code # population) =
     (case evaluate_fitness_on env tests w code of
        Inl e \<Rightarrow> Inl e
      | Inr (fitness, w') \<Rightarrow>
          (case score_all env tests w' population of
             Inl e \<Rightarrow> Inl e
           | Inr (scores, w'') \<Rightarrow> Inr ((code, fitness) # scores, w'')))"

text \<open>
  \<open>fitness_scores.sort(key=lambda x: x[1])\<close>: Python's \<open>list.sort\<close> is stable and
  ascending in the key. A fitness is the quotient of two integers, at most 1, and is
  modelled as a rational number: the floating-point quotients of two such pairs with
  the same divisor below \<open>2 ^ 53\<close> compare as the rationals do.
\<close>

definition sort_by_fitness :: "(string \<times> rat) list \<Rightarrow> (string \<times> rat) list" where
  "sort_by_fitness fitness_scores = sort_key snd fitness_scores"

definition evaluate_and_rank ::
  "'w env \<Rightarrow> (int \<times> string) list \<Rightarrow> 'w \<Rightarrow> string list
    \<Rightarrow> error + (string \<times> rat) list \<times> 'w" where
  "evaluate_and_rank env tests w population =
     (case score_all env tests w population of
        Inl e \<Rightarrow> Inl e
      | Inr (fitness_scores, w') \<Rightarrow> Inr (sort_by_fitness fitness_scores, w'))"

text \<open>The loop \<open>for code, fitness in fitness_scores[1:]\<close>.\<close>

fun mutate_rest ::
  "'w env \<Rightarrow> nat \<Rightarrow> 'w \<Rightarrow> string list \<Rightarrow> (string \<times> rat) list
    \<Rightarrow> error + string list \<times> 'w" where
  "mutate_rest env population_size w new_population [] = Inr (new_population, w)"
| "mutate_rest env population_size w new_population ((code, fitness) # rest) =
     (if length new_population < population_size
      then (case llm_mutate env w code fitness of
              Inl e \<Rightarrow> Inl e
            | Inr (mutated, w') \<Rightarrow>
                mutate_rest env population_size w' (new_population @ [mutated]) rest)
      else mutate_rest env population_size w new_population rest)"

text \<open>
  The body of the loop over the generations: it either returns from \<open>main\<close> with the
  solution or leaves the new population. \<open>fitness_scores[0]\<close> raises \<open>IndexError\<close>
  on an empty list.
\<close>

datatype step = Solution string | Evolve "string list"

definition generation ::
  "'w env \<Rightarrow> (int \<times> string) list \<Rightarrow> nat \<Rightarrow> 'w \<Rightarrow> string list \<Rightarrow> error + step \<times> 'w" where
  "generation env tests population_size w population =
     (case evaluate_and_rank env tests w population of
        Inl e \<Rightarrow> Inl e
      | Inr ([], w1) \<Rightarrow> Inl IndexError
      | Inr ((best_code, best_fitness) # rest, w1) \<Rightarrow>
          if best_fitness = 0 then Inr (Solution best_code, w1)
          else (case mutate_rest env population_size w1 [best_code] rest of
                  Inl e \<Rightarrow> Inl e
                | Inr (new_population, w2) \<Rightarrow> Inr (Evolve new_population, w2)))"

text \<open>
  What \<open>main\<close> prints last: the solution and the number of its generation, or the
  first candidate of the population left by the last generation.
\<close>

datatype result = Solution_found nat string | Evolution_complete string

fun for_generations ::
  "'w env \<Rightarrow> (int \<times> string) list \<Rightarrow> nat \<Rightarrow> nat list \<Rightarrow> 'w \<Rightarrow> string list
    \<Rightarrow> error + result \<times> 'w" where
  "for_generations env tests population_size [] w population =
     (case population of
        [] \<Rightarrow> Inl IndexError
      | first # _ \<Rightarrow> Inr (Evolution_complete first, w))"
| "for_generations env tests population_size (gen # gens) w population =
     (case generation env tests population_size w population of
        Inl e \<Rightarrow> Inl e
      | Inr (Solution best_code, w') \<Rightarrow> Inr (Solution_found (gen + 1) best_code, w')
      | Inr (Evolve new_population, w') \<Rightarrow>
          for_generations env tests population_size gens w' new_population)"

text \<open>\<open>main\<close> with its constants as parameters, and \<open>main\<close> as the script has it.\<close>

definition main_with ::
  "'w env \<Rightarrow> (int \<times> string) list \<Rightarrow> nat \<Rightarrow> nat \<Rightarrow> 'w \<Rightarrow> string list
    \<Rightarrow> error + result \<times> 'w" where
  "main_with env tests population_size generations w population =
     for_generations env tests population_size [0 ..< generations] w population"

definition seed_population :: "string list" where
  "seed_population =
     [''import sys\<newline>print(sys.argv[1])'',
      ''import sys\<newline>print('Fizz')'',
      ''import sys\<newline>n=int(sys.argv[1])\<newline>print('FizzBuzz' if n%15==0 else 'Fizz' if n%3==0 else 'Buzz' if n%5==0 else str(n))'']"

definition main :: "'w env \<Rightarrow> 'w \<Rightarrow> error + result \<times> 'w" where
  "main env w = main_with env FITNESS_TESTS 3 5 w seed_population"

section \<open>Notions used to state the properties\<close>

text \<open>The outcomes of the runs of one fitness evaluation, test by test.\<close>

fun observed :: "'w env \<Rightarrow> 'w \<Rightarrow> (int \<times> string) list \<Rightarrow> outcome list" where
  "observed env w [] = []"
| "observed env w ((input_val, expected) # rest) =
     (case run_candidate env w input_val of (out, w') \<Rightarrow> out # observed env w' rest)"

text \<open>The captured standard output after trimming; a call that raised captured none.\<close>

fun captured :: "outcome \<Rightarrow> string option" where
  "captured (Completed returncode stdout) = Some (strip stdout)"
| "captured TimeoutExpired = None"
| "captured RunRaised = None"

text \<open>The tests of one fitness evaluation whose expected output was not captured.\<close>

definition failed_tests :: "'w env \<Rightarrow> 'w \<Rightarrow> (int \<times> string) list \<Rightarrow> (outcome \<times> int \<times> string) list" where
  "failed_tests env w tests =
     filter (\<lambda>(out, input_val, expected). captured out \<noteq> Some expected)
       (zip (observed env w tests) tests)"

text \<open>
  \<open>reaches env tests n s g s'\<close>: from the world and population \<open>s\<close>, \<open>g\<close> generations
  were evaluated, none found a solution, and they left the world and population \<open>s'\<close>.
\<close>

inductive reaches ::
  "'w env \<Rightarrow> (int \<times> string) list \<Rightarrow> nat \<Rightarrow> 'w \<times> string list \<Rightarrow> nat \<Rightarrow> 'w \<times> string list
    \<Rightarrow> bool" for env tests n s where
  start: "reaches env tests n s 0 s"
| next_generation:
    "reaches env tests n s g (w, population) \<Longrightarrow>
     generation env tests n w population = Inr (Evolve new_population, w') \<Longrightarrow>
     reaches env tests n s (Suc g) (w', new_population)"

text \<open>
  An environment that also records, in order, the sources given to \<open>write_text\<close>:
  one entry for each call of the fitness function.
\<close>

definition logged :: "'w env \<Rightarrow> ('w \<times> string list) env" where
  "logged env =
     \<lparr> write_text = (\<lambda>(w, written) code.
          case write_text env w code of
            None \<Rightarrow> None
          | Some w' \<Rightarrow> Some (w', written @ [code])),
       run_candidate = (\<lambda>(w, written) input_val.
          case run_candidate env w input_val of (out, w') \<Rightarrow> (out, (w', written))),
       claude = (\<lambda>(w, written) code fitness.
          case claude env w code fitness of
            None \<Rightarrow> None
          | Some (stdout, w') \<Rightarrow> Some (stdout, (w', written))) \<rparr>"

text \<open>
  A small environment for examples. The world is the content of \<open>candidate.py\<close>;
  \<open>behave\<close> gives the outcome of running a source and \<open>answer\<close> the oracle's
  output for a source.
\<close>

definition toy_env :: "(string \<Rightarrow> outcome) \<Rightarrow> (string \<Rightarrow> string option) \<Rightarrow> string env" where
  "toy_env behave answer =
     \<lparr> write_text = (\<lambda>w code. Some code),
       run_candidate = (\<lambda>w input_val. (behave w, w)),
       claude = (\<lambda>w code fitness. map_option (\<lambda>stdout. (stdout, w)) (answer code)) \<rparr>"

text \<open>A candidate that prints its own source and a newline, and exits with status 0.\<close>

definition prints_itself :: "string \<Rightarrow> outcome" where
  "prints_itself source = Completed 0 (source @ ''\<newline>'')"

section \<open>Properties\<close>

subsection \<open>The indices read by \<open>extract_code\<close> are in range\<close>

lemma split_from_nonempty: "split_from sep cur s \<noteq> []"
  by (induction sep cur s rule: split_from.induct) auto

lemma split_from_two:
  "sep \<noteq> [] \<Longrightarrow> contains sep s \<Longrightarrow> 2 \<le> length (split_from sep cur s)"
proof (induction sep cur s rule: split_from.induct)
  case (1 sep cur)
  then show ?case by simp
next
  case (2 sep cur c cs)
  show ?case
  proof (cases "take (length sep) (c # cs) = sep")
    case True
    have "split_from sep [] (drop (length sep - 1) cs) \<noteq> []" by (rule split_from_nonempty)
    then have "1 \<le> length (split_from sep [] (drop (length sep - 1) cs))"
      by (cases "split_from sep [] (drop (length sep - 1) cs)") simp_all
    with True show ?thesis by simp
  next
    case False
    with "2.prems" have "contains sep cs" by simp
    from "2.IH"(2) [OF False "2.prems"(1) this] False show ?thesis by simp
  qed
qed

lemma split_index_in_range:
  "sep \<noteq> [] \<Longrightarrow> contains sep s \<Longrightarrow> 1 < length (split s sep)"
  using split_from_two [of sep s "[]"] by (simp add: split_def)

lemma split_first_in_range: "0 < length (split s sep)"
  using split_from_nonempty [of sep "[]" s] by (simp add: split_def)

subsection \<open>The anomaly viewer and the ranking\<close>

lemma parsed_lines_Cons:
  "parsed_lines loads (l # ls) =
      (if strip l = [] then []
       else (case loads (strip l) of Parsed v \<Rightarrow> [v] | _ \<Rightarrow> []))
        @ parsed_lines loads ls"
  by (simp add: parsed_lines_def split: loads_result.splits)

lemma raised_lines_Cons:
  "raised_lines loads (l # ls) =
      (if strip l = [] then []
       else (case loads (strip l) of Raised e \<Rightarrow> [e] | _ \<Rightarrow> []))
        @ raised_lines loads ls"
  by (simp add: raised_lines_def split: loads_result.splits)

lemma bad_lines_Cons:
  "bad_lines loads n (l # ls) =
      (if strip l \<noteq> [] \<and> loads (strip l) = JSONDecodeError
       then [(n, take 80 (strip l))] else [])
        @ bad_lines loads (Suc n) ls"
proof -
  have shift: "[n ..< n + length (l # ls)] = n # [Suc n ..< Suc n + length ls]"
    using upt_conv_Cons [of n "n + length (l # ls)"] by simp
  show ?thesis unfolding bad_lines_def shift by simp
qed

lemma load_lines_acc:
  "load_lines loads n lines acc warned =
     (case raised_lines loads lines of
        [] \<Rightarrow> Inr (acc @ parsed_lines loads lines, warned @ bad_lines loads n lines)
      | e # _ \<Rightarrow> Inl e)"
proof (induction lines arbitrary: n acc warned)
  case Nil
  then show ?case by (simp add: parsed_lines_def bad_lines_def raised_lines_def)
next
  case (Cons l ls)
  show ?case
  proof (cases "strip l = []")
    case True
    then show ?thesis
      by (simp add: Cons.IH parsed_lines_Cons raised_lines_Cons bad_lines_Cons
                 split: list.splits)
  next
    case False
    show ?thesis
    proof (cases "loads (strip l)")
      case (Parsed v)
      with False show ?thesis
        by (simp add: Cons.IH parsed_lines_Cons raised_lines_Cons bad_lines_Cons
                 split: list.splits)
    next
      case JSONDecodeError
      with False show ?thesis
        by (simp add: Cons.IH parsed_lines_Cons raised_lines_Cons bad_lines_Cons
                 split: list.splits)
    next
      case (Raised e)
      with False show ?thesis by (simp add: raised_lines_Cons)
    qed
  qed
qed

lemma strip_ones: "strip (replicate (Suc m) (CHR ''1'')) = replicate (Suc m) (CHR ''1'')"
proof -
  have ns: "\<not> isspace (CHR ''1'')" by (simp add: isspace_def)
  have a: "dropWhile isspace (replicate (Suc m) (CHR ''1'')) = replicate (Suc m) (CHR ''1'')"
    using ns by simp
  have b: "rev (replicate (Suc m) (CHR ''1'')) = replicate (Suc m) (CHR ''1'')"
    by (rule rev_replicate)
  show ?thesis unfolding strip_def a b a b ..
qed

lemma integer_loads_ones:
  assumes "4300 < Suc m"
  shows "integer_loads (replicate (Suc m) (CHR ''1'')) = Raised ValueError"
proof -
  have "list_all (\<lambda>c. c \<in> set ''0123456789'') (replicate (Suc m) (CHR ''1''))"
    unfolding list_all_iff by simp
  moreover have "hd (replicate (Suc m) (CHR ''1'')) \<noteq> CHR ''0''" by simp
  moreover have "replicate (Suc m) (CHR ''1'') \<noteq> []" by simp
  moreover have "4300 < length (replicate (Suc m) (CHR ''1''))" using assms by simp
  ultimately show ?thesis unfolding integer_loads_def by (simp only: simp_thms if_True)
qed

text \<open>
  Against C10 as stated: a file whose only line is an integer of 4301 digits makes
  \<open>json.loads\<close> raise \<open>ValueError\<close>, which the loop does not catch.
\<close>

theorem load_anomalies_raises_counterexample:
  "load_anomalies integer_loads [replicate (Suc 4300) (CHR ''1'')] = Inl ValueError"
proof -
  have r: "integer_loads (replicate (Suc 4300) (CHR ''1'')) = Raised ValueError"
    by (rule integer_loads_ones) simp
  have ne: "replicate (Suc 4300) (CHR ''1'') \<noteq> []" by simp
  show ?thesis
    unfolding load_anomalies_def load_lines.simps Let_def strip_ones
    using r ne by (simp only: if_False loads_result.case)
qed

text \<open>
  C10, amended. For every list of lines on which \<open>json.loads\<close> raises nothing but
  \<open>json.JSONDecodeError\<close>, \<open>load_anomalies\<close> raises nothing and returns exactly the
  values parsed from the trimmed lines that are non-empty and well-formed, in file
  order; a line that is empty after trimming leaves no trace, and each line that is
  not JSON leaves one warning with its line number, counted from 1. When
  \<open>json.loads\<close> raises an exception of another class on some line,
  \<open>load_anomalies\<close> raises the first such exception.
\<close>

theorem load_anomalies_parsed:
  "load_anomalies loads lines =
     (case raised_lines loads lines of
        [] \<Rightarrow> Inr (parsed_lines loads lines, bad_lines loads 1 lines)
      | e # _ \<Rightarrow> Inl e)"
  by (simp add: load_anomalies_def load_lines_acc split: list.splits)

text \<open>
  C6. The ranking step returns a permutation of the scored candidates in ascending
  order of fitness, candidates of equal fitness keep their relative order, and the
  first element of a non-empty ranking has the least fitness of the generation.
\<close>

theorem sort_by_fitness_stable_min:
  "sorted (map snd (sort_by_fitness xs)) \<and>
   mset (sort_by_fitness xs) = mset xs \<and>
   (\<forall>k. filter (\<lambda>x. snd x = k) (sort_by_fitness xs) = filter (\<lambda>x. snd x = k) xs) \<and>
   (xs \<noteq> [] \<longrightarrow> (\<forall>x \<in> set xs. snd (hd (sort_by_fitness xs)) \<le> snd x))"
proof -
  have s: "sorted (map snd (sort_by_fitness xs))"
    by (simp add: sort_by_fitness_def)
  have m: "mset (sort_by_fitness xs) = mset xs"
    by (simp add: sort_by_fitness_def)
  have st: "\<forall>k. filter (\<lambda>x. snd x = k) (sort_by_fitness xs) = filter (\<lambda>x. snd x = k) xs"
    by (simp add: sort_by_fitness_def sort_key_stable)
  have mn: "snd (hd (sort_by_fitness xs)) \<le> snd x" if "xs \<noteq> []" "x \<in> set xs" for x
  proof -
    from that m have ne: "sort_by_fitness xs \<noteq> []" by auto
    then obtain y ys where ys: "sort_by_fitness xs = y # ys" by (cases "sort_by_fitness xs") auto
    from that(2) m have "x \<in> set (sort_by_fitness xs)" by (metis set_mset_mset)
    with s ys show ?thesis by auto
  qed
  from s m st mn show ?thesis by blast
qed

subsection \<open>The fitness\<close>


lemma failed_tests_Cons:
  "run_candidate env w input_val = (out, w') \<Longrightarrow>
   failed_tests env w ((input_val, expected) # ts) =
      (if captured out \<noteq> Some expected then [(out, input_val, expected)] else [])
        @ failed_tests env w' ts"
  by (simp add: failed_tests_def)

lemma run_tests_count:
  "fst (run_tests env w failures tests) = failures + length (failed_tests env w tests)"
proof (induction tests arbitrary: w failures)
  case Nil
  then show ?case by (simp add: failed_tests_def)
next
  case (Cons t ts)
  obtain input_val expected where t: "t = (input_val, expected)" by (cases t)
  obtain out w' where r: "run_candidate env w input_val = (out, w')"
    by (cases "run_candidate env w input_val")
  show ?case unfolding t
    by (cases out) (simp_all add: r failed_tests_Cons [OF r] Cons.IH Let_def)
qed


lemma evaluate_fitness_on_value:
  assumes "tests \<noteq> []" and "write_text env w code = Some w1"
  shows "\<exists>w'. evaluate_fitness_on env tests w code =
           Inr (of_nat (length (failed_tests env w1 tests)) / of_nat (length tests), w')"
proof -
  obtain failures w2 where r: "run_tests env w1 0 tests = (failures, w2)"
    by (cases "run_tests env w1 0 tests")
  have k: "length (failed_tests env w1 tests) = failures"
    using run_tests_count [of env w1 0 tests] r by simp
  have "evaluate_fitness_on env tests w code =
      Inr (of_nat failures / of_nat (length tests), w2)"
    using assms by (simp add: evaluate_fitness_on_def r)
  then show ?thesis unfolding k by blast
qed

lemma evaluate_fitness_on_write_raises:
  "write_text env w code = None \<Longrightarrow> evaluate_fitness_on env tests w code = Inl OSError"
  by (simp add: evaluate_fitness_on_def)





lemma evaluate_fitness_on_Inr:
  "tests \<noteq> [] \<Longrightarrow> write_text env w code = Some w1 \<Longrightarrow>
   \<exists>f w'. evaluate_fitness_on env tests w code = Inr (f, w')"
  using evaluate_fitness_on_value [of tests env w code w1] by blast

lemma evaluate_fitness_on_error:
  assumes "evaluate_fitness_on env tests w code = Inl e" and "tests \<noteq> []"
  shows "e = OSError"
proof (cases "write_text env w code")
  case None
  from evaluate_fitness_on_write_raises [OF None, of tests] assms(1) show ?thesis by simp
next
  case (Some w1)
  from evaluate_fitness_on_Inr [OF assms(2) Some] assms(1) show ?thesis by auto
qed

subsection \<open>Scoring and ranking\<close>

lemma score_all_map_fst:
  "score_all env tests w population = Inr (scores, w') \<Longrightarrow> map fst scores = population"
proof (induction population arbitrary: w scores w')
  case Nil
  then show ?case by simp
next
  case (Cons code population)
  from Cons.prems obtain fitness w1 where
    e: "evaluate_fitness_on env tests w code = Inr (fitness, w1)"
    by (cases "evaluate_fitness_on env tests w code") auto
  from Cons.prems e obtain more w2 where
    r: "score_all env tests w1 population = Inr (more, w2)"
    by (cases "score_all env tests w1 population") auto
  from Cons.prems e r have "scores = (code, fitness) # more" by simp
  with Cons.IH [OF r] show ?case by simp
qed


lemma score_all_deterministic:
  assumes "\<forall>w code. \<exists>w'. evaluate_fitness_on env tests w code = Inr (F code, w')"
  shows "\<exists>w'. score_all env tests w population = Inr (map (\<lambda>code. (code, F code)) population, w')"
proof (induction population arbitrary: w)
  case Nil
  then show ?case by simp
next
  case (Cons code population)
  from assms have "\<exists>w'. evaluate_fitness_on env tests w code = Inr (F code, w')" by blast
  then obtain w1 where e: "evaluate_fitness_on env tests w code = Inr (F code, w1)" by blast
  from Cons.IH [of w1] obtain w2 where
    "score_all env tests w1 population = Inr (map (\<lambda>code. (code, F code)) population, w2)"
    by blast
  with e show ?case by simp
qed

lemma length_sort_by_fitness: "length (sort_by_fitness xs) = length xs"
  by (simp add: sort_by_fitness_def)

lemma set_sort_by_fitness: "set (sort_by_fitness xs) = set xs"
  by (simp add: sort_by_fitness_def)

lemma sort_by_fitness_first_least:
  assumes "sort_by_fitness xs = (best_code, best_fitness) # rest" and "(code, fitness) \<in> set xs"
  shows "best_fitness \<le> fitness"
proof -
  have "sorted (map snd (sort_by_fitness xs))" by (simp add: sort_by_fitness_def)
  then have "\<forall>y \<in> set rest. best_fitness \<le> snd y" using assms(1) by simp
  moreover have "(code, fitness) \<in> set ((best_code, best_fitness) # rest)"
    using assms set_sort_by_fitness [of xs] by simp
  ultimately show ?thesis by auto
qed

lemma evaluate_and_rank_scores:
  assumes "evaluate_and_rank env tests w population = Inr (ranked, w')"
  shows "\<exists>scores. score_all env tests w population = Inr (scores, w') \<and>
           ranked = sort_by_fitness scores \<and> map fst scores = population"
proof -
  from assms obtain scores w1 where s: "score_all env tests w population = Inr (scores, w1)"
    by (cases "score_all env tests w population") (auto simp: evaluate_and_rank_def)
  with assms have "ranked = sort_by_fitness scores" "w1 = w'"
    by (simp_all add: evaluate_and_rank_def)
  with s score_all_map_fst [OF s] show ?thesis by blast
qed

lemma evaluate_and_rank_length:
  assumes "evaluate_and_rank env tests w population = Inr (ranked, w')"
  shows "length ranked = length population"
proof -
  from evaluate_and_rank_scores [OF assms] obtain scores where
    "ranked = sort_by_fitness scores" "map fst scores = population" by blast
  then show ?thesis using length_sort_by_fitness [of scores] length_map [of fst scores] by simp
qed


subsection \<open>Reproduction\<close>

lemma mutate_rest_append:
  "mutate_rest env n w new_population rest = Inr (new', w') \<Longrightarrow>
   \<exists>mutated. new' = new_population @ mutated \<and>
     length mutated = min (length rest) (n - length new_population)"
proof (induction rest arbitrary: w new_population)
  case Nil
  then show ?case by simp
next
  case (Cons cf rest)
  obtain code fitness where cf: "cf = (code, fitness)" by (cases cf)
  show ?case
  proof (cases "length new_population < n")
    case True
    with Cons.prems cf obtain mutated w1 where
      m: "llm_mutate env w code fitness = Inr (mutated, w1)" and
      r: "mutate_rest env n w1 (new_population @ [mutated]) rest = Inr (new', w')"
      by (auto split: sum.splits)
    from Cons.IH [OF r] obtain more where
      "new' = (new_population @ [mutated]) @ more"
      "length more = min (length rest) (n - length (new_population @ [mutated]))" by blast
    with True have "new' = new_population @ (mutated # more) \<and>
        length (mutated # more) = min (length (cf # rest)) (n - length new_population)"
      by auto
    then show ?thesis by blast
  next
    case False
    with Cons.prems cf have r: "mutate_rest env n w new_population rest = Inr (new', w')"
      by simp
    from Cons.IH [OF r] False show ?thesis by auto
  qed
qed

lemma llm_mutate_Inr:
  "claude env w code fitness = Some (stdout, w') \<Longrightarrow>
   llm_mutate env w code fitness = Inr (extract_code stdout, w')"
  by (simp add: llm_mutate_def)


subsection \<open>One generation\<close>

lemma generation_failed:
  "evaluate_and_rank env tests w population = Inl e \<Longrightarrow>
   generation env tests n w population = Inl e"
  by (simp add: generation_def)

lemma generation_no_candidate:
  "evaluate_and_rank env tests w population = Inr ([], w1) \<Longrightarrow>
   generation env tests n w population = Inl IndexError"
  by (simp add: generation_def)

lemma generation_ranked:
  "evaluate_and_rank env tests w population = Inr ((best_code, best_fitness) # rest, w1) \<Longrightarrow>
   generation env tests n w population =
     (if best_fitness = 0 then Inr (Solution best_code, w1)
      else (case mutate_rest env n w1 [best_code] rest of
              Inl e \<Rightarrow> Inl e
            | Inr (new_population, w2) \<Rightarrow> Inr (Evolve new_population, w2)))"
  by (simp add: generation_def)

lemma generation_cases:
  assumes "generation env tests n w population = Inr (r, w')"
  obtains best_code best_fitness rest w1 where
    "evaluate_and_rank env tests w population = Inr ((best_code, best_fitness) # rest, w1)"
proof (cases "evaluate_and_rank env tests w population")
  case (Inl e)
  with assms generation_failed [OF Inl, of n] show ?thesis by simp
next
  case (Inr rw)
  obtain ranked w1 where rw: "rw = (ranked, w1)" by (cases rw)
  show ?thesis
  proof (cases ranked)
    case Nil
    with Inr rw have "evaluate_and_rank env tests w population = Inr ([], w1)" by simp
    from generation_no_candidate [OF this, of n] assms show ?thesis by simp
  next
    case (Cons b rest)
    obtain best_code best_fitness where "b = (best_code, best_fitness)" by (cases b)
    with Inr rw Cons that show ?thesis by simp
  qed
qed

lemma generation_Evolve:
  assumes "generation env tests n w population = Inr (Evolve new_population, w')"
  shows "\<exists>best_code best_fitness rest w1.
           evaluate_and_rank env tests w population = Inr ((best_code, best_fitness) # rest, w1) \<and>
           best_fitness \<noteq> 0 \<and>
           mutate_rest env n w1 [best_code] rest = Inr (new_population, w')"
proof -
  from assms obtain best_code best_fitness rest w1 where
    e: "evaluate_and_rank env tests w population = Inr ((best_code, best_fitness) # rest, w1)"
    by (rule generation_cases)
  note g = generation_ranked [OF e, of n]
  from assms g have nz: "best_fitness \<noteq> 0" by (cases "best_fitness = 0") simp_all
  from assms g nz have
    "(case mutate_rest env n w1 [best_code] rest of
        Inl e \<Rightarrow> Inl e
      | Inr (new_population, w2) \<Rightarrow> Inr (Evolve new_population, w2))
     = Inr (Evolve new_population, w')" by simp
  then have "mutate_rest env n w1 [best_code] rest = Inr (new_population, w')"
    by (cases "mutate_rest env n w1 [best_code] rest") (simp_all split: prod.splits)
  with e nz show ?thesis by blast
qed



lemma generation_Evolve_nonempty:
  assumes "generation env tests n w population = Inr (Evolve new_population, w')"
  shows "\<exists>best_code mutated. new_population = best_code # mutated"
proof -
  from generation_Evolve [OF assms] obtain best_code rest w1 where
    "mutate_rest env n w1 [best_code] rest = Inr (new_population, w')" by blast
  from mutate_rest_append [OF this] show ?thesis by auto
qed

subsection \<open>Failure conditions of a run\<close>

lemma not_captured_iff:
  "captured out \<noteq> Some expected \<longleftrightarrow>
     out = TimeoutExpired \<or> out = RunRaised \<or>
     (\<exists>returncode stdout. out = Completed returncode stdout \<and> strip stdout \<noteq> expected)"
  by (cases out) auto

text \<open>
  Against C2 as stated: a candidate that prints the expected output and then exits
  with status 1 passes its test; the fitness is 0.
\<close>

theorem nonzero_exit_passes_counterexample:
  "evaluate_fitness_on (toy_env (\<lambda>source. Completed 1 ''Fizz\<newline>'') (\<lambda>code. None))
     [(3, ''Fizz'')] [] ''print('Fizz'); exit(1)''
   = Inr (0, ''print('Fizz'); exit(1)'')"
  by code_simp

text \<open>
  C2, amended. For a non-empty list of test vectors and inside the \<open>try\<close>, a run
  that exceeds the timeout and a run whose call raises any other exception each count
  as one failed test, and neither leaves the fitness evaluation. A completed run,
  whatever its exit status (an uncaught fault inside the candidate is an exit status
  other than 0), counts as a failed test exactly when its trimmed standard output
  differs from the expected output: the exit status is not inspected. The one
  exception that does leave the evaluation is that of writing the candidate file,
  which stands before the \<open>try\<close>.
\<close>

theorem evaluate_fitness_on_failures:
  assumes "tests \<noteq> []"
  shows "case write_text env w code of
           None \<Rightarrow> evaluate_fitness_on env tests w code = Inl OSError
         | Some w1 \<Rightarrow>
             (\<exists>f w'. evaluate_fitness_on env tests w code = Inr (f, w') \<and>
                f * of_nat (length tests) =
                  of_nat (length (filter
                    (\<lambda>(out, input_val, expected).
                        out = TimeoutExpired \<or> out = RunRaised \<or>
                        (\<exists>returncode stdout. out = Completed returncode stdout \<and>
                           strip stdout \<noteq> expected))
                    (zip (observed env w1 tests) tests))))"
proof (cases "write_text env w code")
  case None
  from evaluate_fitness_on_write_raises [OF None, of tests] None show ?thesis by simp
next
  case (Some w1)
  from evaluate_fitness_on_value [OF assms Some] obtain w' where
    ev: "evaluate_fitness_on env tests w code =
           Inr (of_nat (length (failed_tests env w1 tests)) / of_nat (length tests), w')"
    by blast
  have nz: "(of_nat (length tests) :: rat) \<noteq> 0" using assms by simp
  have "failed_tests env w1 tests =
      filter (\<lambda>(out, input_val, expected).
                out = TimeoutExpired \<or> out = RunRaised \<or>
                (\<exists>returncode stdout. out = Completed returncode stdout \<and>
                   strip stdout \<noteq> expected))
        (zip (observed env w1 tests) tests)"
    unfolding failed_tests_def not_captured_iff ..
  then have "of_nat (length (failed_tests env w1 tests)) / of_nat (length tests)
        * (of_nat (length tests) :: rat) =
      of_nat (length (filter (\<lambda>(out, input_val, expected).
                out = TimeoutExpired \<or> out = RunRaised \<or>
                (\<exists>returncode stdout. out = Completed returncode stdout \<and>
                   strip stdout \<noteq> expected))
        (zip (observed env w1 tests) tests)))"
    using nz by simp
  with ev have "\<exists>f w'. evaluate_fitness_on env tests w code = Inr (f, w') \<and>
                f * of_nat (length tests) =
                  of_nat (length (filter
                    (\<lambda>(out, input_val, expected).
                        out = TimeoutExpired \<or> out = RunRaised \<or>
                        (\<exists>returncode stdout. out = Completed returncode stdout \<and>
                           strip stdout \<noteq> expected))
                    (zip (observed env w1 tests) tests)))" by blast
  with Some show ?thesis by simp
qed

theorem evaluate_fitness_on_failures_witness:
  "[(1 :: int, ''1'')] \<noteq> [] \<and>
   evaluate_fitness_on (toy_env (\<lambda>source. TimeoutExpired) (\<lambda>code. None))
     [(1, ''1'')] [] ''while True: pass'' = Inr (1, ''while True: pass'')"
  using evaluate_fitness_on_failures
    [of "[(1, ''1'')]" "toy_env (\<lambda>source. TimeoutExpired) (\<lambda>code. None)" "[]"
        "''while True: pass''"]
  by (simp add: evaluate_fitness_on_def toy_env_def)

subsection \<open>Instances of the fitness and ranking properties\<close>


theorem sort_by_fitness_stable_min_witness:
  "[(''a'', 1), (''b'', 0 :: rat)] \<noteq> [] \<and>
   sort_by_fitness [(''a'', 1), (''b'', 0)] = [(''b'', 0), (''a'', 1)] \<and>
   snd (hd (sort_by_fitness [(''a'', 1), (''b'', 0)])) \<le> snd (''a'', 1 :: rat) \<and>
   snd (hd (sort_by_fitness [(''a'', 1), (''b'', 0)])) \<le> snd (''b'', 0 :: rat)"
  using sort_by_fitness_stable_min [of "[(''a'', 1), (''b'', 0)]"]
  by (simp add: sort_by_fitness_def)

subsection \<open>What a discarded slot receives\<close>

text \<open>
  Against C4 as stated: the oracle returns the empty string for the discarded
  candidate, and the slot receives the empty string, not the discarded source.
\<close>

theorem empty_mutation_kept_counterexample:
  "mutate_rest (toy_env prints_itself (\<lambda>code. Some [])) 2 [] [''best''] [(''discarded'', 1)]
   = Inr ([''best'', ''''], [])"
  by code_simp

text \<open>
  C4, amended. In a reproduction step with room for every discarded candidate, either
  every oracle call returns, and then the new population has one more candidate for
  each discarded one (it does not shrink), namely the trimmed text that \<open>llm_mutate\<close>
  extracts from what the oracle returned for that candidate, the empty string
  included, and not the discarded source; or the call for some discarded candidate
  raises, and then the step raises \<open>OSError\<close> and leaves no new population.
\<close>

theorem mutate_rest_slots:
  assumes "length new_population + length rest \<le> n"
  shows "case mutate_rest env n w new_population rest of
           Inr (new', w') \<Rightarrow>
             length new' = length new_population + length rest \<and>
             take (length new_population) new' = new_population \<and>
             (\<forall>i < length rest. \<exists>w1 w2 stdout.
                claude env w1 (fst (rest ! i)) (snd (rest ! i)) = Some (stdout, w2) \<and>
                new' ! (length new_population + i) = extract_code stdout)
         | Inl e \<Rightarrow>
             e = OSError \<and>
             (\<exists>i < length rest. \<exists>w1. claude env w1 (fst (rest ! i)) (snd (rest ! i)) = None)"
  using assms
proof (induction rest arbitrary: w new_population)
  case Nil
  then show ?case by simp
next
  case (Cons cf rest)
  obtain code fitness where cf: "cf = (code, fitness)" by (cases cf)
  from Cons.prems have room: "length new_population < n" by simp
  show ?case
  proof (cases "claude env w code fitness")
    case None
    then have "llm_mutate env w code fitness = Inl OSError" by (simp add: llm_mutate_def)
    with room have "mutate_rest env n w new_population (cf # rest) = Inl OSError"
      unfolding cf by simp
    moreover have "\<exists>i < length (cf # rest). \<exists>w1.
        claude env w1 (fst ((cf # rest) ! i)) (snd ((cf # rest) ! i)) = None"
      using None cf by (intro exI [of _ 0]) auto
    ultimately show ?thesis by simp
  next
    case (Some r)
    obtain stdout w1 where r: "r = (stdout, w1)" by (cases r)
    define mutated where "mutated = extract_code stdout"
    from Some r have c: "claude env w code fitness = Some (stdout, w1)" by simp
    then have m: "llm_mutate env w code fitness = Inr (mutated, w1)"
      unfolding mutated_def by (rule llm_mutate_Inr)
    with room have unfold: "mutate_rest env n w new_population (cf # rest) =
        mutate_rest env n w1 (new_population @ [mutated]) rest"
      unfolding cf by simp
    from Cons.prems have "length (new_population @ [mutated]) + length rest \<le> n" by simp
    note IH = Cons.IH [OF this, of w1]
    show ?thesis
    proof (cases "mutate_rest env n w1 (new_population @ [mutated]) rest")
      case (Inl e)
      with IH obtain j where e: "e = OSError" and j: "j < length rest"
        and "\<exists>w1. claude env w1 (fst (rest ! j)) (snd (rest ! j)) = None" by auto
      then have "Suc j < length (cf # rest) \<and>
          (\<exists>w1. claude env w1 (fst ((cf # rest) ! Suc j)) (snd ((cf # rest) ! Suc j)) = None)"
        by simp
      then have "\<exists>i < length (cf # rest). \<exists>w1.
          claude env w1 (fst ((cf # rest) ! i)) (snd ((cf # rest) ! i)) = None" by blast
      with Inl e unfold show ?thesis by simp
    next
      case (Inr nw)
      obtain new' w' where nw: "nw = (new', w')" by (cases nw)
      from IH Inr nw have len: "length new' = length new_population + 1 + length rest"
        and tk: "take (length new_population + 1) new' = new_population @ [mutated]"
        and slots: "\<forall>i < length rest. \<exists>wa wb out.
              claude env wa (fst (rest ! i)) (snd (rest ! i)) = Some (out, wb) \<and>
              new' ! (length new_population + 1 + i) = extract_code out"
        by simp_all
      from tk have "take (length new_population) (take (length new_population + 1) new')
          = take (length new_population) (new_population @ [mutated])" by simp
      then have tk': "take (length new_population) new' = new_population" by simp
      have "new' ! length new_population
          = take (length new_population + 1) new' ! length new_population" by simp
      also have "\<dots> = mutated" unfolding tk by simp
      finally have first: "new' ! length new_population = mutated" .
      have all: "\<exists>wa wb out.
            claude env wa (fst ((cf # rest) ! i)) (snd ((cf # rest) ! i)) = Some (out, wb) \<and>
            new' ! (length new_population + i) = extract_code out"
        if "i < length (cf # rest)" for i
      proof (cases i)
        case 0
        with c first cf show ?thesis unfolding mutated_def by auto
      next
        case (Suc j)
        with that have "j < length rest" by simp
        with slots obtain wa wb out where
          "claude env wa (fst (rest ! j)) (snd (rest ! j)) = Some (out, wb)"
          "new' ! (length new_population + 1 + j) = extract_code out" by blast
        with Suc show ?thesis by auto
      qed
      from len tk' all Inr nw unfold show ?thesis by simp
    qed
  qed
qed

theorem mutate_rest_slots_witness:
  "length [''best''] + length [(''discarded'', 1 :: rat)] \<le> 2 \<and>
   (case mutate_rest (toy_env prints_itself (\<lambda>code. Some (code @ '' '')))
           2 [] [''best''] [(''discarded'', 1)] of
      Inr (new', w') \<Rightarrow> length new' = 2 \<and> take 1 new' = [''best'']
    | Inl e \<Rightarrow> e = OSError)"
  using mutate_rest_slots
    [of "[''best'']" "[(''discarded'', 1)]" 2
        "toy_env prints_itself (\<lambda>code. Some (code @ '' ''))" "[]"]
  by (simp split: sum.splits prod.splits)

subsection \<open>The size of the population\<close>

lemma generation_size:
  assumes "generation env tests n w p = Inr (Evolve p', w')" and "length p = n"
  shows "\<exists>best_code mutated. p' = best_code # mutated \<and> length mutated = n - 1"
proof -
  from generation_Evolve [OF assms(1)] obtain best_code best_fitness rest w1 where
    e: "evaluate_and_rank env tests w p = Inr ((best_code, best_fitness) # rest, w1)" and
    m: "mutate_rest env n w1 [best_code] rest = Inr (p', w')" by blast
  from evaluate_and_rank_length [OF e] assms(2) have r: "length rest = n - 1" by simp
  from mutate_rest_append [OF m] obtain mutated where
    "p' = [best_code] @ mutated" "length mutated = min (length rest) (n - length [best_code])"
    by blast
  with r have "p' = best_code # mutated \<and> length mutated = n - 1" by simp
  then show ?thesis by blast
qed

lemma generation_positive_size:
  assumes "generation env tests n w p = Inr (r, w')"
  shows "0 < length p"
proof -
  from assms obtain best_code best_fitness rest w1 where
    e: "evaluate_and_rank env tests w p = Inr ((best_code, best_fitness) # rest, w1)"
    by (rule generation_cases)
  from evaluate_and_rank_length [OF e] show ?thesis by (cases p) simp_all
qed

lemma reaches_size:
  "reaches env tests n s g s' \<Longrightarrow> length (snd s) = n \<Longrightarrow> length (snd s') = n"
proof (induction rule: reaches.induct)
  case start
  then show ?case by simp
next
  case (next_generation g w population new_population w')
  then have len: "length population = n" by simp
  from generation_size [OF next_generation.hyps(2) len] obtain best_code mutated where
    p: "new_population = best_code # mutated" "length mutated = n - 1" by blast
  from generation_positive_size [OF next_generation.hyps(2)] len have "0 < n" by simp
  with p show ?case by simp
qed

text \<open>
  C9. From a seed population of \<open>n\<close> candidates and with population size \<open>n\<close>, the
  population at the start of every generation has \<open>n\<close> candidates, and each
  reproduction step leaves \<open>n\<close> candidates: the elite and \<open>n - 1\<close> replacements.
\<close>

theorem population_size_fixed:
  assumes "length population = n"
    and "reaches env tests n (w0, population) g (w, p)"
    and "generation env tests n w p = Inr (Evolve p', w')"
  shows "length p = n \<and> length p' = n \<and>
         (\<exists>best_code mutated. p' = best_code # mutated \<and> length mutated = n - 1)"
proof -
  from reaches_size [OF assms(2)] assms(1) have len: "length p = n" by simp
  from generation_size [OF assms(3) len] obtain best_code mutated where
    p: "p' = best_code # mutated" "length mutated = n - 1" by blast
  from generation_positive_size [OF assms(3)] len have "0 < n" by simp
  with p have "length p' = n" by simp
  with len p show ?thesis by blast
qed

lemma toy_generation_1:
  "generation (toy_env prints_itself (\<lambda>code. Some (code @ ''k''))) [(1, ''ok'')] 2 []
     [''x'', ''y''] = Inr (Evolve [''x'', ''yk''], ''y'')"
  by code_simp

lemma toy_generation_2:
  "generation (toy_env prints_itself (\<lambda>code. Some (code @ ''k''))) [(1, ''ok'')] 2 ''y''
     [''x'', ''yk''] = Inr (Evolve [''x'', ''ykk''], ''yk'')"
  by code_simp

lemma toy_reaches_1:
  "reaches (toy_env prints_itself (\<lambda>code. Some (code @ ''k''))) [(1, ''ok'')] 2
     ([], [''x'', ''y'']) (Suc 0) (''y'', [''x'', ''yk''])"
  by (rule reaches.next_generation [OF reaches.start toy_generation_1])

theorem population_size_fixed_witness:
  "length [''x'', ''y''] = 2 \<and>
   reaches (toy_env prints_itself (\<lambda>code. Some (code @ ''k''))) [(1, ''ok'')] 2
     ([], [''x'', ''y'']) (Suc 0) (''y'', [''x'', ''yk'']) \<and>
   generation (toy_env prints_itself (\<lambda>code. Some (code @ ''k''))) [(1, ''ok'')] 2 ''y''
     [''x'', ''yk''] = Inr (Evolve [''x'', ''ykk''], ''yk'') \<and>
   length [''x'', ''yk''] = 2 \<and> length [''x'', ''ykk''] = 2"
proof -
  have l: "length [''x'', ''y''] = 2" by simp
  from population_size_fixed [OF l toy_reaches_1 toy_generation_2]
    toy_reaches_1 toy_generation_2
  show ?thesis by simp
qed

subsection \<open>The best fitness from one generation to the next\<close>

lemma evaluate_and_rank_deterministic:
  assumes "\<forall>w code. \<exists>w'. evaluate_fitness_on env tests w code = Inr (F code, w')"
  shows "\<exists>w'. evaluate_and_rank env tests w population =
           Inr (sort_by_fitness (map (\<lambda>code. (code, F code)) population), w')"
proof -
  from score_all_deterministic [OF assms, of w population] obtain w' where
    "score_all env tests w population = Inr (map (\<lambda>code. (code, F code)) population, w')"
    by blast
  then show ?thesis by (simp add: evaluate_and_rank_def)
qed

lemma ranked_first_scored:
  assumes "sort_by_fitness (map (\<lambda>code. (code, F code)) population)
             = (best_code, best_fitness) # rest"
  shows "best_fitness = F best_code"
proof -
  have "(best_code, best_fitness) \<in> set (sort_by_fitness (map (\<lambda>code. (code, F code)) population))"
    unfolding assms by simp
  then have "(best_code, best_fitness) \<in> set (map (\<lambda>code. (code, F code)) population)"
    by (simp only: set_sort_by_fitness)
  then show ?thesis by auto
qed

text \<open>
  C5. When the fitness of a candidate does not depend on when it is evaluated, the
  best fitness of the generation that follows a reproduction step is at most the best
  fitness of the generation before it.
\<close>

theorem best_fitness_never_regresses:
  assumes det: "\<forall>w code. \<exists>w'. evaluate_fitness_on env tests w code = Inr (F code, w')"
    and step: "generation env tests n w population = Inr (Evolve new_population, w')"
  shows "\<exists>best_code best_fitness rest w1 best_code' best_fitness' rest' w2.
           evaluate_and_rank env tests w population
             = Inr ((best_code, best_fitness) # rest, w1) \<and>
           evaluate_and_rank env tests w' new_population
             = Inr ((best_code', best_fitness') # rest', w2) \<and>
           best_fitness' \<le> best_fitness"
proof -
  from generation_Evolve [OF step] obtain best_code best_fitness rest w1 where
    e: "evaluate_and_rank env tests w population = Inr ((best_code, best_fitness) # rest, w1)"
    and m: "mutate_rest env n w1 [best_code] rest = Inr (new_population, w')" by blast
  from evaluate_and_rank_deterministic [OF det, of w population] e have
    "sort_by_fitness (map (\<lambda>code. (code, F code)) population) = (best_code, best_fitness) # rest"
    by auto
  then have bf: "best_fitness = F best_code" by (rule ranked_first_scored)
  from mutate_rest_append [OF m] obtain mutated where
    np: "new_population = best_code # mutated" by auto
  from evaluate_and_rank_deterministic [OF det, of w' new_population] obtain w2 where
    e': "evaluate_and_rank env tests w' new_population =
           Inr (sort_by_fitness (map (\<lambda>code. (code, F code)) new_population), w2)" by blast
  have "length (sort_by_fitness (map (\<lambda>code. (code, F code)) new_population))
          = length new_population"
    by (simp add: length_sort_by_fitness)
  with np obtain b rest' where
    "sort_by_fitness (map (\<lambda>code. (code, F code)) new_population) = b # rest'"
    by (cases "sort_by_fitness (map (\<lambda>code. (code, F code)) new_population)") auto
  then obtain best_code' best_fitness' where
    s': "sort_by_fitness (map (\<lambda>code. (code, F code)) new_population)
           = (best_code', best_fitness') # rest'"
    by (cases b) auto
  have "(best_code, F best_code) \<in> set (map (\<lambda>code. (code, F code)) new_population)"
    unfolding np by simp
  from sort_by_fitness_first_least [OF s' this] bf have "best_fitness' \<le> best_fitness" by simp
  with e e' s' show ?thesis by auto
qed

lemma toy_deterministic:
  "\<forall>w code. \<exists>w'. evaluate_fitness_on (toy_env prints_itself answer) [(1, ''ok'')] w code
      = Inr (if strip (code @ ''\<newline>'') = ''ok'' then 0 else 1, w')"
  by (simp add: evaluate_fitness_on_def toy_env_def prints_itself_def)

theorem best_fitness_never_regresses_witness:
  "\<exists>best_code best_fitness rest w1 best_code' best_fitness' rest' w2.
      evaluate_and_rank (toy_env prints_itself (\<lambda>code. Some (code @ ''k''))) [(1, ''ok'')] []
          [''x'', ''y''] = Inr ((best_code, best_fitness) # rest, w1) \<and>
      evaluate_and_rank (toy_env prints_itself (\<lambda>code. Some (code @ ''k''))) [(1, ''ok'')] ''y''
          [''x'', ''yk''] = Inr ((best_code', best_fitness') # rest', w2) \<and>
      best_fitness' \<le> best_fitness"
  by (rule best_fitness_never_regresses [OF toy_deterministic toy_generation_1])

subsection \<open>Which candidates a generation evaluates\<close>

lemma write_text_logged:
  "write_text env w code = Some w1 \<Longrightarrow>
   write_text (logged env) (w, written) code = Some (w1, written @ [code])"
  by (simp add: logged_def)

lemma write_text_logged_raises:
  "write_text env w code = None \<Longrightarrow> write_text (logged env) (w, written) code = None"
  by (simp add: logged_def)

lemma run_candidate_logged:
  "run_candidate env w input_val = (out, w') \<Longrightarrow>
   run_candidate (logged env) (w, written) input_val = (out, (w', written))"
  by (simp add: logged_def)

lemma run_tests_logged:
  "snd (snd (run_tests (logged env) (w, written) failures tests)) = written"
proof (induction tests arbitrary: w failures)
  case Nil
  then show ?case by simp
next
  case (Cons t tests)
  obtain input_val expected where t: "t = (input_val, expected)" by (cases t)
  obtain out w' where r: "run_candidate env w input_val = (out, w')"
    by (cases "run_candidate env w input_val")
  note r' = run_candidate_logged [OF r, of written]
  show ?case unfolding t
    by (cases out) (simp_all add: r' Cons.IH Let_def)
qed

lemma evaluate_fitness_on_logged:
  assumes "evaluate_fitness_on (logged env) tests (w, written) code = Inr (f, (w', written'))"
  shows "written' = written @ [code]"
proof (cases "write_text env w code")
  case None
  from write_text_logged_raises [OF None, of written]
  have "write_text (logged env) (w, written) code = None" .
  from evaluate_fitness_on_write_raises [OF this, of tests] assms show ?thesis by simp
next
  case (Some w1)
  note wr = write_text_logged [OF Some, of written]
  obtain k s where r: "run_tests (logged env) (w1, written @ [code]) 0 tests = (k, s)"
    by (cases "run_tests (logged env) (w1, written @ [code]) 0 tests")
  from run_tests_logged [of env w1 "written @ [code]" 0 tests] r
  have s: "snd s = written @ [code]" by simp
  from assms r have "s = (w', written')"
    by (simp add: evaluate_fitness_on_def wr split: if_splits)
  with s show ?thesis by simp
qed

lemma score_all_logged:
  "score_all (logged env) tests (w, written) population = Inr (scores, (w', written')) \<Longrightarrow>
   written' = written @ population"
proof (induction population arbitrary: w written scores)
  case Nil
  then show ?case by simp
next
  case (Cons code population)
  from Cons.prems obtain fitness s1 where
    e: "evaluate_fitness_on (logged env) tests (w, written) code = Inr (fitness, s1)"
    by (cases "evaluate_fitness_on (logged env) tests (w, written) code") auto
  obtain w1 written1 where s1: "s1 = (w1, written1)" by (cases s1)
  from evaluate_fitness_on_logged [OF e [unfolded s1]] have w1: "written1 = written @ [code]" .
  from Cons.prems e s1 obtain more where
    r: "score_all (logged env) tests (w1, written1) population = Inr (more, (w', written'))"
    by (cases "score_all (logged env) tests (w1, written1) population") auto
  from Cons.IH [OF r] w1 show ?case by simp
qed

text \<open>
  Against C3 as stated: with two generations, the elite \<open>x\<close> of the first
  generation is given to the fitness function again in the second one. The last
  component lists the sources evaluated, in order.
\<close>

theorem elite_evaluated_again_counterexample:
  "main_with (logged (toy_env prints_itself (\<lambda>code. Some (code @ ''k'')))) [(1, ''ok'')] 2 2
     ([], []) [''x'', ''y'']
   = Inr (Evolution_complete ''x'', (''yk'', [''x'', ''y'', ''x'', ''yk'']))"
  by code_simp

text \<open>
  C3, amended. The best candidate of a generation is carried unchanged into the new
  population, as its first element, and the fitness evaluation of the next generation
  invokes the fitness function on every candidate of that population in order, the
  carried elite included: no fitness is kept from one generation to the next.
\<close>

theorem elite_carried_and_evaluated_again:
  assumes "generation (logged env) tests n (w, written) population
             = Inr (Evolve new_population, (w', written'))"
    and "evaluate_and_rank (logged env) tests (w', written') new_population
             = Inr (ranked, (w'', written''))"
  shows "\<exists>best_code best_fitness rest s1 mutated.
           evaluate_and_rank (logged env) tests (w, written) population
             = Inr ((best_code, best_fitness) # rest, s1) \<and>
           new_population = best_code # mutated \<and>
           written'' = written' @ best_code # mutated"
proof -
  from generation_Evolve [OF assms(1)] obtain best_code best_fitness rest s1 where
    e: "evaluate_and_rank (logged env) tests (w, written) population
          = Inr ((best_code, best_fitness) # rest, s1)"
    and m: "mutate_rest (logged env) n s1 [best_code] rest
          = Inr (new_population, (w', written'))" by blast
  from mutate_rest_append [OF m] obtain mutated where
    np: "new_population = best_code # mutated" by auto
  from evaluate_and_rank_scores [OF assms(2)] obtain scores where
    "score_all (logged env) tests (w', written') new_population = Inr (scores, (w'', written''))"
    by blast
  from score_all_logged [OF this] np have "written'' = written' @ best_code # mutated" by simp
  with e np show ?thesis by blast
qed

lemma toy_logged_generation_1:
  "generation (logged (toy_env prints_itself (\<lambda>code. Some (code @ ''k'')))) [(1, ''ok'')] 2
     ([], []) [''x'', ''y''] = Inr (Evolve [''x'', ''yk''], (''y'', [''x'', ''y'']))"
  by code_simp

lemma toy_logged_evaluate_2:
  "evaluate_and_rank (logged (toy_env prints_itself (\<lambda>code. Some (code @ ''k''))))
     [(1, ''ok'')] (''y'', [''x'', ''y'']) [''x'', ''yk'']
   = Inr ([(''x'', 1), (''yk'', 1)], (''yk'', [''x'', ''y'', ''x'', ''yk'']))"
  by code_simp

theorem elite_carried_and_evaluated_again_witness:
  "\<exists>best_code best_fitness rest s1 mutated.
      evaluate_and_rank (logged (toy_env prints_itself (\<lambda>code. Some (code @ ''k''))))
          [(1, ''ok'')] ([], []) [''x'', ''y''] = Inr ((best_code, best_fitness) # rest, s1) \<and>
      [''x'', ''yk''] = best_code # mutated \<and>
      [''x'', ''y'', ''x'', ''yk''] = [''x'', ''y''] @ best_code # mutated"
  by (rule elite_carried_and_evaluated_again [OF toy_logged_generation_1 toy_logged_evaluate_2])

subsection \<open>The run\<close>







subsection \<open>The script's own constants\<close>

text \<open>
  \<open>main\<close> takes no argument: the population size, the number of generations, the
  seed and the test vectors are literals of the script. With them the division of the
  fitness function has the divisor 8 and \<open>fitness_scores[0]\<close> exists, so that the only
  exceptions that leave \<open>main\<close> are those of writing the candidate file and of
  calling the oracle.
\<close>

lemma score_all_error:
  "score_all env tests w population = Inl e \<Longrightarrow> tests \<noteq> [] \<Longrightarrow> e = OSError"
proof (induction population arbitrary: w)
  case Nil
  then show ?case by simp
next
  case (Cons code population)
  show ?case
  proof (cases "evaluate_fitness_on env tests w code")
    case (Inl e')
    with Cons.prems(1) have "e' = e" by simp
    with evaluate_fitness_on_error [OF Inl Cons.prems(2)] show ?thesis by simp
  next
    case (Inr fw)
    obtain fitness w1 where fw: "fw = (fitness, w1)" by (cases fw)
    from Cons.prems(1) Inr fw have "score_all env tests w1 population = Inl e"
      by (cases "score_all env tests w1 population") (simp_all split: prod.splits)
    from Cons.IH [OF this Cons.prems(2)] show ?thesis .
  qed
qed

lemma mutate_rest_error:
  "mutate_rest env n w new_population rest = Inl e \<Longrightarrow> e = OSError"
proof (induction rest arbitrary: w new_population)
  case Nil
  then show ?case by simp
next
  case (Cons cf rest)
  obtain code fitness where cf: "cf = (code, fitness)" by (cases cf)
  show ?case
  proof (cases "length new_population < n")
    case False
    with Cons.prems cf have "mutate_rest env n w new_population rest = Inl e" by simp
    from Cons.IH [OF this] show ?thesis .
  next
    case True
    show ?thesis
    proof (cases "claude env w code fitness")
      case None
      then have "llm_mutate env w code fitness = Inl OSError" by (simp add: llm_mutate_def)
      with True Cons.prems cf show ?thesis by simp
    next
      case (Some r)
      obtain stdout w1 where "r = (stdout, w1)" by (cases r)
      with Some have "llm_mutate env w code fitness = Inr (extract_code stdout, w1)"
        by (simp add: llm_mutate_def)
      with True Cons.prems cf have
        "mutate_rest env n w1 (new_population @ [extract_code stdout]) rest = Inl e" by simp
      from Cons.IH [OF this] show ?thesis .
    qed
  qed
qed

lemma generation_error:
  assumes "generation env tests n w population = Inl e"
    and "tests \<noteq> []" and "population \<noteq> []"
  shows "e = OSError"
proof (cases "evaluate_and_rank env tests w population")
  case (Inl e')
  from generation_failed [OF Inl, of n] assms(1) have "e' = e" by simp
  with Inl have "score_all env tests w population = Inl e"
    by (cases "score_all env tests w population")
       (simp_all add: evaluate_and_rank_def split: prod.splits)
  from score_all_error [OF this assms(2)] show ?thesis .
next
  case (Inr rw)
  obtain ranked w1 where rw: "rw = (ranked, w1)" by (cases rw)
  with Inr have e: "evaluate_and_rank env tests w population = Inr (ranked, w1)" by simp
  from evaluate_and_rank_length [OF e] assms(3) obtain best_code best_fitness rest where
    r: "ranked = (best_code, best_fitness) # rest" by (cases ranked) auto
  from generation_ranked [OF e [unfolded r], of n] assms(1)
  have "mutate_rest env n w1 [best_code] rest = Inl e"
    by (cases "mutate_rest env n w1 [best_code] rest")
       (simp_all split: if_splits prod.splits)
  from mutate_rest_error [OF this] show ?thesis .
qed

lemma for_generations_error:
  "for_generations env tests n gens w population = Inl e \<Longrightarrow> tests \<noteq> [] \<Longrightarrow>
   population \<noteq> [] \<Longrightarrow> e = OSError"
proof (induction gens arbitrary: w population)
  case Nil
  then show ?case by (cases population) simp_all
next
  case (Cons gen gens)
  show ?case
  proof (cases "generation env tests n w population")
    case (Inl e')
    with Cons.prems(1) have "e' = e" by simp
    with generation_error [OF Inl Cons.prems(2) Cons.prems(3)] show ?thesis by simp
  next
    case (Inr rw)
    obtain r w1 where rw: "rw = (r, w1)" by (cases rw)
    show ?thesis
    proof (cases r)
      case (Solution best_code)
      with Cons.prems(1) Inr rw show ?thesis by simp
    next
      case (Evolve new_population)
      with Inr rw have g: "generation env tests n w population
          = Inr (Evolve new_population, w1)" by simp
      from generation_Evolve_nonempty [OF g] have ne: "new_population \<noteq> []" by auto
      from Cons.prems(1) g have
        "for_generations env tests n gens w1 new_population = Inl e" by simp
      from Cons.IH [OF this Cons.prems(2) ne] show ?thesis .
    qed
  qed
qed

lemma main_error:
  assumes "main env w = Inl e"
  shows "e = OSError"
proof -
  have t: "FITNESS_TESTS \<noteq> []" by (simp add: FITNESS_TESTS_def)
  have p: "seed_population \<noteq> []" by (simp add: seed_population_def)
  from assms have "for_generations env FITNESS_TESTS 3 [0 ..< 5] w seed_population = Inl e"
    by (simp only: main_def main_with_def)
  from for_generations_error [OF this t p] show ?thesis .
qed

lemma evaluate_fitness_error:
  assumes "evaluate_fitness env w code = Inl e"
  shows "e = OSError"
proof -
  have t: "FITNESS_TESTS \<noteq> []" by (simp add: FITNESS_TESTS_def)
  from assms have "evaluate_fitness_on env FITNESS_TESTS w code = Inl e"
    by (simp only: evaluate_fitness_def)
  from evaluate_fitness_on_error [OF this t] show ?thesis .
qed

end
